theory Spec2Isabelle
  imports Complex_Main
begin

section \<open>The staircase quantity engine (services/stairCalculator.ts)\<close>

text \<open>
  The engine is the single pure function \<open>calculateStairMetrics\<close>. Its TypeScript
  \<open>number\<close>s are IEEE binary64 values and are modelled as follows.
  \<^item> A finite binary64 value is the \<open>real\<close> it denotes. The division operator \<open>/\<close> of
    lines 7 to 13 and of line 26 is \<open>fdiv\<close>, the exact quotient rounded to the nearest
    binary64 value, ties to even; the literal \<open>5.7\<close> is the binary64 value nearest to
    57/10. The exponent range is not bounded, so overflow, underflow and the special
    values NaN and Infinity are outside this model (the input form feeds the engine
    \<open>parseFloat(value) || 0\<close> from numeric fields, that is finite numbers).
  \<^item> A quantity that the code only ever produces with \<open>Math.round\<close>, \<open>Math.floor\<close>,
    \<open>Math.ceil\<close>, \<open>Math.min\<close>, \<open>%\<close> or by counting is an \<open>int\<close>. Integers are unbounded
    and their arithmetic is exact, as binary64 arithmetic is on integers below \<open>2^53\<close>;
    in particular the quotient of two integers under \<open>Math.floor\<close> (line 55) and
    \<open>Math.ceil\<close> (line 43) is taken exactly, which gives the same integer as the
    rounded quotient when the dividend is below \<open>2^53\<close> (\<open>floor_fdiv_int\<close> and
    \<open>ceiling_fdiv_int\<close> below).
  \<^item> Products, sums, halvings and the square root of the continuous quantities (lengths,
    areas, volumes) are exact: they decide no branch and no count.
\<close>

subsection \<open>Data model (types.ts)\<close>

record StairInputParams =
  height :: real
  stairWidth :: real
  riser :: real
  tread :: real
  slabThick :: real
  landingLength :: real
  landingDepth :: real
  landingThick :: real

record FlightData =
  risers :: int
  treads :: int
  run :: real
  rise :: real
  inclined_length :: real

record StairMetrics =
  num_flights :: int
  num_landings :: int
  total_treads :: int
  total_volume :: real
  total_formwork_area :: real
  formwork_bottom_slab :: real
  formwork_landing_bottom :: real
  formwork_risers :: real
  formwork_above_slab :: real
  volume_waist_slabs :: real
  volume_landings :: real
  volume_steps :: real
  flights_data :: "FlightData list"
  R :: real
  T :: real
  ST :: real
  LD :: real
  LT :: real

subsection \<open>Binary64 rounding\<close>

text \<open>
  \<open>floor_log2 x\<close> is the exponent \<open>E\<close> with \<open>2^E \<le> x < 2^(E+1)\<close> of a positive real,
  computed from the integer part of \<open>x\<close> or of its reciprocal.
\<close>

function floor_log2_int :: "int \<Rightarrow> int" where
  "floor_log2_int n = (if n \<le> 1 then 0 else 1 + floor_log2_int (n div 2))"
  by pat_completeness auto
termination
  by (relation "measure nat") auto

declare floor_log2_int.simps [simp del]

definition floor_log2 :: "real \<Rightarrow> int" where
  "floor_log2 x =
     (if 1 \<le> x then floor_log2_int \<lfloor>x\<rfloor> else - (floor_log2_int (\<lceil>1 / x\<rceil> - 1) + 1))"

text \<open>Rounding a non-negative real to the nearest integer, a tie going to the even one.\<close>

definition round_half_even :: "real \<Rightarrow> int" where
  "round_half_even q =
     (let f = \<lfloor>q\<rfloor>
      in if q - real_of_int f < 1 / 2 then f
         else if 1 / 2 < q - real_of_int f then f + 1
         else if even f then f else f + 1)"

text \<open>
  The binary64 value nearest to a real: a significand of 53 bits, that is an integer
  between \<open>2^52\<close> and \<open>2^53\<close>, scaled by a power of two.
\<close>

definition binary64 :: "real \<Rightarrow> real" where
  "binary64 x =
     (if x = 0 then 0
      else (let e = floor_log2 \<bar>x\<bar> - 52
            in sgn x * real_of_int (round_half_even (\<bar>x\<bar> / 2 powi e)) * 2 powi e))"

text \<open>
  The division operator on numbers. (A zero divisor gives NaN or Infinity in
  JavaScript; the engine divides by 1000 and, behind the validity gate, by \<open>R > 0\<close>
  only.)
\<close>

definition fdiv :: "real \<Rightarrow> real \<Rightarrow> real" where
  "fdiv x y = binary64 (x / y)"

subsection \<open>JavaScript primitives used by the engine\<close>

text \<open>
  \<open>Math.round\<close> rounds the value of its argument to the nearest integer, a tie going
  towards \<open>+\<infinity>\<close>; \<open>Math.floor\<close> and \<open>Math.ceil\<close> are the floor and the ceiling.
\<close>

definition Math_round :: "real \<Rightarrow> int" where
  "Math_round x = \<lfloor>x + 1 / 2\<rfloor>"

definition Math_floor :: "real \<Rightarrow> int" where
  "Math_floor x = \<lfloor>x\<rfloor>"

definition Math_ceil :: "real \<Rightarrow> int" where
  "Math_ceil x = \<lceil>x\<rceil>"

text \<open>
  The remainder operator \<open>a % b\<close> on integral numbers: the result takes the sign of the
  dividend. (A zero divisor gives NaN in JavaScript; the engine guards the only use
  with \<open>num_flights > 0\<close>.)
\<close>

definition js_rem :: "int \<Rightarrow> int \<Rightarrow> int" where
  "js_rem a b = sgn a * (\<bar>a\<bar> mod \<bar>b\<bar>)"

subsection \<open>Step 1: flights and landings\<close>

text \<open>
  The \<open>if\<close>/\<open>else if\<close> chain that assigns \<open>num_flights\<close> before the clamp
  (stairCalculator.ts, lines 29 to 44). The literals 8, 12 and 18 are binary64 values;
  the literal \<open>5.7\<close> denotes \<open>binary64 5.7 = 6417629469002957 / 2^50\<close>.
\<close>

definition banded_num_flights :: "real \<Rightarrow> int \<Rightarrow> int" where
  "banded_num_flights H total_risers =
     (if total_risers = 0 then 0
      else if H \<le> binary64 5.7 then 2
      else if H \<le> 8 then 4
      else if H \<le> 12 then 6
      else (let MAX_RISERS_PER_FLIGHT = 18
            in Math_ceil (real_of_int total_risers / MAX_RISERS_PER_FLIGHT)))"

text \<open>The clamp of lines 48 to 50: a flight must have at least one riser.\<close>

definition clamp_num_flights :: "int \<Rightarrow> int \<Rightarrow> int" where
  "clamp_num_flights n total_risers =
     (if total_risers > 0 then min n total_risers else n)"

subsection \<open>Step 2: distributing the risers\<close>

text \<open>
  The \<open>for\<close> loop of lines 59 to 67, with the loop counter \<open>i\<close> and the array
  \<open>flights_data\<close> built so far as explicit state. A flight with no riser is skipped
  (\<open>continue\<close>); otherwise it is pushed at the end of the array.
\<close>

function flights_loop ::
  "int \<Rightarrow> int \<Rightarrow> int \<Rightarrow> int \<Rightarrow> real \<Rightarrow> real \<Rightarrow> FlightData list \<Rightarrow> FlightData list" where
  "flights_loop i n base_risers_per_flight extra_risers t r out =
     (if i < n then
        (let risers = base_risers_per_flight + (if i < extra_risers then 1 else 0)
         in if risers = 0
            then flights_loop (i + 1) n base_risers_per_flight extra_risers t r out
            else
              (let treads = risers - 1;
                   run = real_of_int treads * t;
                   rise = real_of_int risers * r;
                   inclined_length = sqrt (run ^ 2 + rise ^ 2)
               in flights_loop (i + 1) n base_risers_per_flight extra_risers t r
                    (out @ [\<lparr>risers = risers, treads = treads, run = run, rise = rise,
                              inclined_length = inclined_length\<rparr>])))
      else out)"
  by pat_completeness auto
termination
  by (relation "measure (\<lambda>(i, n, b, e, t, r, out). nat (n - i))") auto

declare flights_loop.simps [simp del]

subsection \<open>Step 3: aggregation over the flights\<close>

text \<open>
  The body of the \<open>forEach\<close> of lines 76 to 81. The four accumulators it updates are
  the state, in the order \<open>total_inclined_length\<close>, \<open>volume_waist_slabs\<close>,
  \<open>volume_steps\<close>, \<open>total_treads\<close>.
\<close>

fun accumulate_flight ::
  "real \<Rightarrow> real \<Rightarrow> real \<Rightarrow> real \<Rightarrow> real \<times> real \<times> real \<times> int \<Rightarrow> FlightData
     \<Rightarrow> real \<times> real \<times> real \<times> int" where
  "accumulate_flight sw st t r (til, vws, vs, tt) flight =
     (til + inclined_length flight,
      vws + inclined_length flight * sw * st,
      vs + (sw * t * r / 2) * real_of_int (treads flight),
      tt + treads flight)"

subsection \<open>The engine\<close>

definition calculateStairMetrics :: "StairInputParams \<Rightarrow> StairMetrics" where
  "calculateStairMetrics params =
     (let H = height params;
          SW = fdiv (stairWidth params) 1000;
          R = fdiv (riser params) 1000;
          T = fdiv (tread params) 1000;
          ST = fdiv (slabThick params) 1000;
          LL = fdiv (landingLength params) 1000;
          LD = fdiv (landingDepth params) 1000;
          LT = fdiv (landingThick params) 1000
      in if R \<le> 0 \<or> H \<le> 0 \<or> T \<le> 0 then
           \<lparr>num_flights = 0, num_landings = 0, total_treads = 0, total_volume = 0,
            total_formwork_area = 0, formwork_bottom_slab = 0, formwork_landing_bottom = 0,
            formwork_risers = 0, formwork_above_slab = 0, volume_waist_slabs = 0,
            volume_landings = 0, volume_steps = 0, flights_data = [],
            R = R, T = T, ST = ST, LD = LD, LT = LT\<rparr>
         else
           (let total_risers = Math_round (fdiv H R);
                num_flights = clamp_num_flights (banded_num_flights H total_risers) total_risers;
                num_landings = (if num_flights > 0 then num_flights - 1 else 0);
                base_risers_per_flight =
                  (if num_flights > 0
                   then Math_floor (real_of_int total_risers / real_of_int num_flights) else 0);
                extra_risers = (if num_flights > 0 then js_rem total_risers num_flights else 0);
                flights_data =
                  flights_loop 0 num_flights base_risers_per_flight extra_risers T R [];
                (total_inclined_length, volume_waist_slabs, volume_steps, total_treads) =
                  foldl (accumulate_flight SW ST T R) (0, 0, 0, 0) flights_data;
                formwork_bottom_slab =
                  (total_inclined_length * SW) + (total_inclined_length * ST);
                formwork_landing_bottom = LL * LD * real_of_int num_landings;
                volume_landings = (LL * LD * LT) * real_of_int num_landings;
                formwork_risers = ((R * SW) + (R * T / 2)) * real_of_int total_risers;
                formwork_above_slab = 0;
                total_volume = volume_waist_slabs + volume_steps + volume_landings;
                total_formwork_area =
                  formwork_bottom_slab + formwork_landing_bottom + formwork_risers
            in \<lparr>num_flights = num_flights, num_landings = num_landings,
                total_treads = total_treads, total_volume = total_volume,
                total_formwork_area = total_formwork_area,
                formwork_bottom_slab = formwork_bottom_slab,
                formwork_landing_bottom = formwork_landing_bottom,
                formwork_risers = formwork_risers,
                formwork_above_slab = formwork_above_slab,
                volume_waist_slabs = volume_waist_slabs,
                volume_landings = volume_landings, volume_steps = volume_steps,
                flights_data = flights_data,
                R = R, T = T, ST = ST, LD = LD, LT = LT\<rparr>))"

subsection \<open>Quantities used in the statements\<close>

text \<open>
  A valid input: \<open>riser > 0\<close>, \<open>height > 0\<close> and \<open>tread > 0\<close>. These are the inputs that
  pass the validity gate of line 16 (\<open>gate_passed_iff\<close> below).
\<close>

definition valid_input :: "StairInputParams \<Rightarrow> bool" where
  "valid_input params \<longleftrightarrow> riser params > 0 \<and> height params > 0 \<and> tread params > 0"

text \<open>The value of \<open>total_risers\<close> at line 26, as a function of the input.\<close>

definition totalRisers :: "StairInputParams \<Rightarrow> int" where
  "totalRisers params = Math_round (fdiv (height params) (fdiv (riser params) 1000))"

text \<open>The application's default input (App.tsx).\<close>

definition default_params :: StairInputParams where
  "default_params =
     \<lparr>height = 4, stairWidth = 1950, riser = 180, tread = 280, slabThick = 150,
      landingLength = 4100, landingDepth = 1495, landingThick = 200\<rparr>"

text \<open>The default input with another height (in metres) and riser (in millimetres).\<close>

definition stair :: "real \<Rightarrow> real \<Rightarrow> StairInputParams" where
  "stair h r = default_params\<lparr>height := h, riser := r\<rparr>"

text \<open>
  The riser count that the loop computes for index \<open>i\<close>, and the flight record that it
  pushes for a riser count \<open>k\<close> (lines 60 and 62 to 66), named for the proofs.
\<close>

definition risers_at :: "int \<Rightarrow> int \<Rightarrow> int \<Rightarrow> int" where
  "risers_at base extra i = base + (if i < extra then 1 else 0)"

definition flight_of :: "real \<Rightarrow> real \<Rightarrow> int \<Rightarrow> FlightData" where
  "flight_of t r k =
     \<lparr>risers = k, treads = k - 1, run = real_of_int (k - 1) * t, rise = real_of_int k * r,
      inclined_length = sqrt ((real_of_int (k - 1) * t) ^ 2 + (real_of_int k * r) ^ 2)\<rparr>"

section \<open>Properties\<close>

subsection \<open>Properties of the binary64 rounding\<close>

lemma floor_log2_int_nonneg: "0 \<le> floor_log2_int n"
  by (induction n rule: floor_log2_int.induct) (subst floor_log2_int.simps, simp)

lemma floor_log2_int_bounds:
  "1 \<le> n \<Longrightarrow> 2 ^ nat (floor_log2_int n) \<le> n \<and> n < 2 * 2 ^ nat (floor_log2_int n)"
proof (induction n rule: floor_log2_int.induct)
  case (1 n)
  show ?case
  proof (cases "n \<le> 1")
    case True
    with "1.prems" have "n = 1" by simp
    then show ?thesis by (subst (1 2) floor_log2_int.simps) simp
  next
    case False
    then have h: "1 \<le> n div 2" by simp
    let ?k = "floor_log2_int (n div 2)"
    from "1.IH" [OF False h]
    have ih: "2 ^ nat ?k \<le> n div 2" "n div 2 < 2 * 2 ^ nat ?k" by simp_all
    have eq: "floor_log2_int n = 1 + ?k"
      using False by (subst floor_log2_int.simps) simp
    have "nat (1 + ?k) = Suc (nat ?k)"
      using floor_log2_int_nonneg [of "n div 2"] by simp
    then have p: "(2::int) ^ nat (floor_log2_int n) = 2 * 2 ^ nat ?k"
      by (simp add: eq)
    from ih show ?thesis unfolding p by linarith
  qed
qed

lemma two_powi_nonneg: "0 \<le> k \<Longrightarrow> (2::real) powi k = 2 ^ nat k"
  by (simp add: power_int_def)

lemma two_powi_neg: "0 \<le> k \<Longrightarrow> (2::real) powi (- k) = 1 / 2 ^ nat k"
  by (simp add: power_int_minus two_powi_nonneg divide_inverse)

lemma floor_log2_bounds:
  assumes "0 < x"
  shows "2 powi floor_log2 x \<le> x" and "x < 2 powi (floor_log2 x + 1)"
proof -
  have "2 powi floor_log2 x \<le> x \<and> x < 2 powi (floor_log2 x + 1)"
  proof (cases "1 \<le> x")
    case True
    let ?k = "floor_log2_int \<lfloor>x\<rfloor>"
    have n: "1 \<le> \<lfloor>x\<rfloor>" using True by simp
    from floor_log2_int_bounds [OF n]
    have b: "2 ^ nat ?k \<le> \<lfloor>x\<rfloor>" "\<lfloor>x\<rfloor> < 2 * 2 ^ nat ?k" by simp_all
    have k: "0 \<le> ?k" by (rule floor_log2_int_nonneg)
    have p: "(2::real) powi ?k = 2 ^ nat ?k" "(2::real) powi (?k + 1) = 2 * 2 ^ nat ?k"
      using k two_powi_nonneg [of ?k] two_powi_nonneg [of "?k + 1"]
      by (simp_all add: nat_add_distrib)
    have "real_of_int (2 ^ nat ?k) \<le> real_of_int \<lfloor>x\<rfloor>" using b(1) by (simp only: of_int_le_iff)
    then have lo: "2 ^ nat ?k \<le> x" by (simp add: le_floor_iff)
    have "\<lfloor>x\<rfloor> + 1 \<le> 2 * 2 ^ nat ?k" using b(2) by simp
    then have "real_of_int (\<lfloor>x\<rfloor> + 1) \<le> real_of_int (2 * 2 ^ nat ?k)" by (simp only: of_int_le_iff)
    then have c: "real_of_int \<lfloor>x\<rfloor> + 1 \<le> 2 * 2 ^ nat ?k" by simp
    have d: "x < real_of_int \<lfloor>x\<rfloor> + 1" by linarith
    from c d have hi: "x < 2 * 2 ^ nat ?k" by linarith
    show ?thesis using True lo hi by (simp add: floor_log2_def p)
  next
    case False
    let ?y = "\<lceil>1 / x\<rceil> - 1"
    let ?k = "floor_log2_int ?y"
    have inv: "1 < 1 / x" using assms False by simp
    then have n: "1 \<le> ?y" by (simp add: less_ceiling_iff)
    from floor_log2_int_bounds [OF n]
    have b: "2 ^ nat ?k \<le> ?y" "?y < 2 * 2 ^ nat ?k" by simp_all
    have k: "0 \<le> ?k" by (rule floor_log2_int_nonneg)
    have y1: "real_of_int ?y < 1 / x" by linarith
    have y2: "1 / x \<le> real_of_int ?y + 1" by linarith
    have "real_of_int (2 ^ nat ?k) \<le> real_of_int ?y" using b(1) by (simp only: of_int_le_iff)
    then have "2 ^ nat ?k \<le> real_of_int ?y" by simp
    with y1 have A: "2 ^ nat ?k < 1 / x" by linarith
    have "?y + 1 \<le> 2 * 2 ^ nat ?k" using b(2) by simp
    then have "real_of_int (?y + 1) \<le> real_of_int (2 * 2 ^ nat ?k)" by (simp only: of_int_le_iff)
    then have "real_of_int ?y + 1 \<le> 2 * 2 ^ nat ?k" by simp
    with y2 have B: "1 / x \<le> 2 * 2 ^ nat ?k" by linarith
    have fl: "floor_log2 x = - (?k + 1)" using False by (simp add: floor_log2_def)
    have p1: "(2::real) powi (- (?k + 1)) = 1 / (2 * 2 ^ nat ?k)"
      using k two_powi_neg [of "?k + 1"] by (simp add: nat_add_distrib)
    have p2: "(2::real) powi (- (?k + 1) + 1) = 1 / 2 ^ nat ?k"
      using k two_powi_neg [of ?k] by simp
    have lo: "1 / (2 * 2 ^ nat ?k) \<le> x"
      using B assms by (simp add: field_simps)
    have hi: "x < 1 / 2 ^ nat ?k"
      using A assms by (simp add: field_simps)
    show ?thesis unfolding fl p1 p2 using lo hi by simp
  qed
  then show "2 powi floor_log2 x \<le> x" and "x < 2 powi (floor_log2 x + 1)" by simp_all
qed

lemma round_half_even_bounds:
  "real_of_int (round_half_even q) \<le> q + 1 / 2" "q - 1 / 2 \<le> real_of_int (round_half_even q)"
  by (simp_all add: round_half_even_def Let_def) linarith+

lemma round_half_even_ge: "real_of_int n \<le> q \<Longrightarrow> n \<le> round_half_even q"
  by (simp add: round_half_even_def Let_def le_floor_iff) linarith

lemma round_half_even_le: "q \<le> real_of_int n \<Longrightarrow> round_half_even q \<le> n"
  by (simp add: round_half_even_def Let_def) linarith

lemma round_half_even_of_int: "round_half_even (real_of_int n) = n"
  by (simp add: round_half_even_def)

lemma scaled_bounds:
  assumes "0 < a"
  shows "2 ^ 52 \<le> a / 2 powi (floor_log2 a - 52)" and "a / 2 powi (floor_log2 a - 52) < 2 ^ 53"
proof -
  let ?E = "floor_log2 a"
  have p: "(2::real) powi ?E = 2 powi (?E - 52) * 2 ^ 52"
    using power_int_add [of "2::real" "?E - 52" 52] by simp
  have p': "(2::real) powi (?E + 1) = 2 powi (?E - 52) * 2 ^ 53"
    using power_int_add [of "2::real" "?E - 52" 53] by (simp add: add.commute)
  have pos: "0 < (2::real) powi (?E - 52)" by simp
  from floor_log2_bounds(1) [OF assms] have "2 powi (?E - 52) * 2 ^ 52 \<le> a"
    by (simp only: p)
  then show "2 ^ 52 \<le> a / 2 powi (?E - 52)"
    using pos by (simp add: field_simps)
  from floor_log2_bounds(2) [OF assms] have "a < 2 powi (?E - 52) * 2 ^ 53"
    by (simp only: p')
  then show "a / 2 powi (?E - 52) < 2 ^ 53"
    using pos by (simp add: field_simps)
qed

lemma significand_bounds:
  assumes "0 < a"
  shows "2 ^ 52 \<le> round_half_even (a / 2 powi (floor_log2 a - 52))"
    and "round_half_even (a / 2 powi (floor_log2 a - 52)) \<le> 2 ^ 53"
proof -
  have "real_of_int (2 ^ 52) \<le> a / 2 powi (floor_log2 a - 52)"
    using scaled_bounds(1) [OF assms] by simp
  then show "2 ^ 52 \<le> round_half_even (a / 2 powi (floor_log2 a - 52))"
    by (rule round_half_even_ge)
  have "a / 2 powi (floor_log2 a - 52) \<le> real_of_int (2 ^ 53)"
    using scaled_bounds(2) [OF assms] by simp
  then show "round_half_even (a / 2 powi (floor_log2 a - 52)) \<le> 2 ^ 53"
    by (rule round_half_even_le)
qed

lemma binary64_zero: "binary64 0 = 0"
  by (simp add: binary64_def)

lemma binary64_pos: "0 < x \<Longrightarrow> 0 < binary64 x"
  using significand_bounds(1) [of x] by (simp add: binary64_def Let_def)

lemma binary64_minus: "binary64 (- x) = - binary64 x"
  by (simp add: binary64_def Let_def sgn_minus)

lemma binary64_nonpos: "x \<le> 0 \<Longrightarrow> binary64 x \<le> 0"
proof (cases "x = 0")
  case True
  then show ?thesis by (simp add: binary64_zero)
next
  case False
  assume "x \<le> 0"
  with False have "0 < - x" by simp
  from binary64_pos [OF this] show ?thesis by (simp add: binary64_minus)
qed

lemma binary64_nonneg: "0 \<le> x \<Longrightarrow> 0 \<le> binary64 x"
  using binary64_pos [of x] by (cases "x = 0") (simp_all add: binary64_zero)

text \<open>
  The rounded value is a 53-bit significand times a power of two, and it is within half
  a unit in the last place of the real it rounds.
\<close>

lemma binary64_representable:
  "\<exists>m. \<bar>m\<bar> \<le> 2 ^ 53 \<and> binary64 x = real_of_int m * 2 powi (floor_log2 \<bar>x\<bar> - 52)"
proof (cases "x = 0")
  case True
  then show ?thesis by (intro exI [of _ 0]) (simp add: binary64_zero)
next
  case False
  then have a: "0 < \<bar>x\<bar>" by simp
  let ?m = "round_half_even (\<bar>x\<bar> / 2 powi (floor_log2 \<bar>x\<bar> - 52))"
  have m: "0 \<le> ?m" "?m \<le> 2 ^ 53" using significand_bounds [OF a] by simp_all
  show ?thesis
  proof (cases "0 < x")
    case True
    then show ?thesis using m
      by (intro exI [of _ ?m]) (simp add: binary64_def Let_def)
  next
    case neg: False
    with False have "x < 0" by simp
    then show ?thesis using m
      by (intro exI [of _ "- ?m"]) (simp add: binary64_def Let_def)
  qed
qed

lemma binary64_error:
  assumes "x \<noteq> 0"
  shows "\<bar>binary64 x - x\<bar> \<le> 2 powi (floor_log2 \<bar>x\<bar> - 53)"
proof -
  let ?e = "floor_log2 \<bar>x\<bar> - 52"
  let ?q = "\<bar>x\<bar> / 2 powi ?e"
  let ?m = "round_half_even ?q"
  have pos: "0 < (2::real) powi ?e" by simp
  have half: "(2::real) powi (floor_log2 \<bar>x\<bar> - 53) = 2 powi ?e / 2"
    using power_int_add [of "2::real" "floor_log2 \<bar>x\<bar> - 53" 1] by simp
  have "\<bar>real_of_int ?m - ?q\<bar> \<le> 1 / 2"
    using round_half_even_bounds [of ?q] by linarith
  then have "\<bar>real_of_int ?m - ?q\<bar> * 2 powi ?e \<le> 1 / 2 * 2 powi ?e"
    using pos by (simp only: mult_le_cancel_right_pos)
  moreover have "\<bar>real_of_int ?m - ?q\<bar> * 2 powi ?e = \<bar>real_of_int ?m * 2 powi ?e - \<bar>x\<bar>\<bar>"
  proof -
    have "\<bar>real_of_int ?m - ?q\<bar> * 2 powi ?e = \<bar>(real_of_int ?m - ?q) * 2 powi ?e\<bar>"
      using pos by (simp add: abs_mult)
    also have "(real_of_int ?m - ?q) * 2 powi ?e = real_of_int ?m * 2 powi ?e - \<bar>x\<bar>"
      using pos by (simp add: field_simps)
    finally show ?thesis .
  qed
  ultimately have ab: "\<bar>real_of_int ?m * 2 powi ?e - \<bar>x\<bar>\<bar> \<le> 2 powi ?e / 2" by simp
  have "\<bar>binary64 x - x\<bar> = \<bar>real_of_int ?m * 2 powi ?e - \<bar>x\<bar>\<bar>"
  proof (cases "0 < x")
    case True
    then show ?thesis by (simp add: binary64_def Let_def)
  next
    case False
    with assms have neg: "x < 0" by simp
    then have "binary64 x - x = - (real_of_int ?m * 2 powi ?e - \<bar>x\<bar>)"
      by (simp add: binary64_def Let_def)
    then show ?thesis by (simp only: abs_minus_cancel)
  qed
  with ab show ?thesis by (simp only: half)
qed

lemma binary64_error_pos:
  "0 < x \<Longrightarrow> \<bar>binary64 x - x\<bar> \<le> 2 powi (floor_log2 x - 53)"
  using binary64_error [of x] by simp

text \<open>Rounding is monotone, and integers below \<open>2^53\<close> are binary64 values.\<close>

lemma round_half_even_mono: "p \<le> q \<Longrightarrow> round_half_even p \<le> round_half_even q"
proof -
  assume pq: "p \<le> q"
  have fl: "\<lfloor>p\<rfloor> \<le> \<lfloor>q\<rfloor>" using pq by (rule floor_mono)
  show ?thesis
  proof (cases "\<lfloor>p\<rfloor> = \<lfloor>q\<rfloor>")
    case True
    then show ?thesis using pq by (auto simp add: round_half_even_def Let_def)
  next
    case False
    with fl have "\<lfloor>p\<rfloor> + 1 \<le> \<lfloor>q\<rfloor>" by simp
    moreover have "round_half_even p \<le> \<lfloor>p\<rfloor> + 1"
      by (simp add: round_half_even_def Let_def)
    moreover have "\<lfloor>q\<rfloor> \<le> round_half_even q"
      by (simp add: round_half_even_def Let_def)
    ultimately show ?thesis by linarith
  qed
qed

lemma floor_log2_mono:
  assumes "0 < x" "x \<le> y"
  shows "floor_log2 x \<le> floor_log2 y"
proof (rule ccontr)
  assume "\<not> floor_log2 x \<le> floor_log2 y"
  then have "floor_log2 y + 1 \<le> floor_log2 x" by simp
  then have "(2::real) powi (floor_log2 y + 1) \<le> 2 powi floor_log2 x"
    by (intro power_int_increasing) simp_all
  moreover have "y < 2 powi (floor_log2 y + 1)"
    using assms by (intro floor_log2_bounds(2)) simp
  moreover have "2 powi floor_log2 x \<le> x"
    using assms by (intro floor_log2_bounds(1))
  ultimately show False using assms(2) by linarith
qed

lemma binary64_lower: "0 < x \<Longrightarrow> 2 powi floor_log2 x \<le> binary64 x"
proof -
  assume x: "0 < x"
  let ?e = "floor_log2 x - 52"
  have "real_of_int (2 ^ 52) \<le> real_of_int (round_half_even (x / 2 powi ?e))"
    using significand_bounds(1) [OF x] by (simp only: of_int_le_iff)
  then have "2 ^ 52 * 2 powi ?e \<le> real_of_int (round_half_even (x / 2 powi ?e)) * 2 powi ?e"
    by (simp add: mult_le_cancel_right_pos)
  moreover have "(2::real) powi floor_log2 x = 2 ^ 52 * 2 powi ?e"
    using power_int_add [of "2::real" 52 ?e] by simp
  ultimately show ?thesis using x by (simp add: binary64_def Let_def)
qed

lemma binary64_upper: "0 < x \<Longrightarrow> binary64 x \<le> 2 powi (floor_log2 x + 1)"
proof -
  assume x: "0 < x"
  let ?e = "floor_log2 x - 52"
  have "real_of_int (round_half_even (x / 2 powi ?e)) \<le> real_of_int (2 ^ 53)"
    using significand_bounds(2) [OF x] by (simp only: of_int_le_iff)
  then have "real_of_int (round_half_even (x / 2 powi ?e)) * 2 powi ?e \<le> 2 ^ 53 * 2 powi ?e"
    by (simp add: mult_le_cancel_right_pos)
  moreover have "(2::real) powi (floor_log2 x + 1) = 2 ^ 53 * 2 powi ?e"
    using power_int_add [of "2::real" 53 ?e] by (simp add: add.commute)
  ultimately show ?thesis using x by (simp add: binary64_def Let_def)
qed

lemma binary64_mono_pos:
  assumes "0 < x" "x \<le> y"
  shows "binary64 x \<le> binary64 y"
proof (cases "floor_log2 x = floor_log2 y")
  case True
  have y: "0 < y" using assms by simp
  let ?e = "floor_log2 y - 52"
  have "x / 2 powi ?e \<le> y / 2 powi ?e"
    using assms(2) by (simp add: divide_right_mono)
  then have "round_half_even (x / 2 powi ?e) \<le> round_half_even (y / 2 powi ?e)"
    by (rule round_half_even_mono)
  then have "real_of_int (round_half_even (x / 2 powi ?e)) \<le> real_of_int (round_half_even (y / 2 powi ?e))"
    by (simp only: of_int_le_iff)
  then have "real_of_int (round_half_even (x / 2 powi ?e)) * 2 powi ?e
      \<le> real_of_int (round_half_even (y / 2 powi ?e)) * 2 powi ?e"
    by (simp add: mult_le_cancel_right_pos)
  then show ?thesis using assms y True by (simp add: binary64_def Let_def)
next
  case False
  have y: "0 < y" using assms by simp
  from False floor_log2_mono [OF assms] have "floor_log2 x + 1 \<le> floor_log2 y" by simp
  then have "(2::real) powi (floor_log2 x + 1) \<le> 2 powi floor_log2 y"
    by (intro power_int_increasing) simp_all
  with binary64_upper [OF assms(1)] binary64_lower [OF y] show ?thesis by linarith
qed

lemma binary64_mono: "x \<le> y \<Longrightarrow> binary64 x \<le> binary64 y"
proof -
  assume xy: "x \<le> y"
  consider "0 < x" | "x \<le> 0" "0 \<le> y" | "y < 0" by linarith
  then show ?thesis
  proof cases
    case 1
    then show ?thesis using xy by (rule binary64_mono_pos)
  next
    case 2
    then show ?thesis using binary64_nonpos [of x] binary64_nonneg [of y] by linarith
  next
    case 3
    then have "0 < - y" "- y \<le> - x" using xy by simp_all
    from binary64_mono_pos [OF this] show ?thesis by (simp add: binary64_minus)
  qed
qed

lemma binary64_of_int:
  assumes "\<bar>n\<bar> < 2 ^ 53"
  shows "binary64 (real_of_int n) = real_of_int n"
proof -
  have pos: "binary64 (real_of_int k) = real_of_int k" if k: "0 < k" "k < 2 ^ 53" for k :: int
  proof -
    let ?x = "real_of_int k"
    let ?e = "floor_log2 ?x - 52"
    have x: "0 < ?x" using k by simp
    have "(2::real) powi floor_log2 ?x \<le> ?x" using x by (rule floor_log2_bounds(1))
    also have "?x < 2 ^ 53" using k(2) by (metis of_int_less_iff of_int_numeral of_int_power)
    finally have "(2::real) powi floor_log2 ?x < 2 powi 53" by simp
    then have "floor_log2 ?x < 53"
      using power_int_increasing [of 53 "floor_log2 ?x" "2::real"] by (cases "53 \<le> floor_log2 ?x") simp_all
    then have e: "0 \<le> - ?e" by simp
    have pe: "(2::real) powi ?e = 1 / 2 ^ nat (- ?e)"
      using two_powi_neg [OF e] by simp
    have "?x / 2 powi ?e = real_of_int (k * 2 ^ nat (- ?e))"
      by (simp add: pe)
    then have "round_half_even (?x / 2 powi ?e) = k * 2 ^ nat (- ?e)"
      by (simp only: round_half_even_of_int)
    then show ?thesis using x by (simp add: binary64_def Let_def pe)
  qed
  consider "0 < n" | "n = 0" | "n < 0" by linarith
  then show ?thesis
  proof cases
    case 1
    then show ?thesis using assms by (intro pos) simp_all
  next
    case 2
    then show ?thesis by (simp add: binary64_zero)
  next
    case 3
    then have "binary64 (real_of_int (- n)) = real_of_int (- n)"
      using assms by (intro pos) simp_all
    then show ?thesis by (simp add: binary64_minus)
  qed
qed

text \<open>
  The rounded quotient of two integers has the floor and the ceiling of the exact
  quotient, as long as the dividend is below \<open>2^53\<close>.
\<close>

lemma fdiv_int_between:
  assumes a: "0 \<le> a" "a < 2 ^ 53" and b: "0 < b" and nd: "a mod b \<noteq> 0"
  shows "real_of_int (a div b) < fdiv (real_of_int a) (real_of_int b)"
    and "fdiv (real_of_int a) (real_of_int b) < real_of_int (a div b) + 1"
proof -
  let ?x = "real_of_int a / real_of_int b"
  let ?E = "floor_log2 ?x"
  have rb: "0 < real_of_int b" using b by simp
  have m: "1 \<le> a mod b" "a mod b \<le> b - 1"
    using nd b pos_mod_sign [of b a] pos_mod_bound [of b a] by linarith+
  have apos: "0 < a" using nd a(1) by (cases "a = 0") simp_all
  then have x: "0 < ?x" using b by simp
  have dm: "real_of_int a = real_of_int (a div b) * real_of_int b + real_of_int (a mod b)"
    by (metis of_int_add of_int_mult div_mult_mod_eq)
  have xk: "?x = real_of_int (a div b) + real_of_int (a mod b) / real_of_int b"
    using rb by (subst dm) (simp add: add_divide_distrib)
  have "1 \<le> real_of_int (a mod b)" "real_of_int (a mod b) \<le> real_of_int b - 1"
    using m by linarith+
  then have fr: "1 / real_of_int b \<le> real_of_int (a mod b) / real_of_int b"
       "real_of_int (a mod b) / real_of_int b \<le> 1 - 1 / real_of_int b"
    using rb by (simp_all add: field_simps)
  have "2 powi ?E \<le> ?x" using x by (rule floor_log2_bounds(1))
  then have "real_of_int b * 2 powi ?E \<le> real_of_int a"
    using rb by (simp add: field_simps)
  also have "real_of_int a < 2 ^ 53"
    using a(2) by (metis of_int_less_iff of_int_numeral of_int_power)
  finally have "real_of_int b * 2 powi ?E < 2 ^ 53" .
  moreover have "(2::real) powi ?E = 2 powi (?E - 53) * 2 ^ 53"
    using power_int_add [of "2::real" "?E - 53" 53] by simp
  ultimately have "real_of_int b * 2 powi (?E - 53) * 2 ^ 53 < 1 * 2 ^ 53" by simp
  then have "real_of_int b * 2 powi (?E - 53) < 1"
    by (simp only: mult_less_cancel_right_pos zero_less_power zero_less_numeral)
  then have small: "2 powi (?E - 53) < 1 / real_of_int b"
    using rb by (simp add: field_simps)
  have "\<bar>binary64 ?x - ?x\<bar> \<le> 2 powi (?E - 53)"
    using x by (rule binary64_error_pos)
  with small have err: "\<bar>binary64 ?x - ?x\<bar> < 1 / real_of_int b" by linarith
  show "real_of_int (a div b) < fdiv (real_of_int a) (real_of_int b)"
    unfolding fdiv_def using err fr xk by linarith
  show "fdiv (real_of_int a) (real_of_int b) < real_of_int (a div b) + 1"
    unfolding fdiv_def using err fr xk by linarith
qed

lemma fdiv_int_exact:
  assumes "0 \<le> a" "a < 2 ^ 53" "0 < b" "a mod b = 0"
  shows "fdiv (real_of_int a) (real_of_int b) = real_of_int (a div b)"
proof -
  have "a = (a div b) * b" using assms(4) by (simp add: mod_eq_0_iff_dvd)
  then have "real_of_int a = real_of_int (a div b) * real_of_int b"
    by (metis of_int_mult)
  then have q: "real_of_int a / real_of_int b = real_of_int (a div b)"
    using assms(3) by simp
  have "0 \<le> a div b" using assms by (simp add: pos_imp_zdiv_nonneg_iff)
  moreover have "a div b \<le> a" using zdiv_mono2 [of a 1 b] assms by simp
  ultimately have "\<bar>a div b\<bar> < 2 ^ 53" using assms(2) by simp
  then show ?thesis by (simp add: fdiv_def q binary64_of_int)
qed

lemma floor_fdiv_int:
  assumes "0 \<le> a" "a < 2 ^ 53" "0 < b"
  shows "\<lfloor>fdiv (real_of_int a) (real_of_int b)\<rfloor> = \<lfloor>real_of_int a / real_of_int b\<rfloor>"
proof (cases "a mod b = 0")
  case True
  then show ?thesis
    using fdiv_int_exact [OF assms True] by (simp add: floor_divide_of_int_eq)
next
  case False
  from fdiv_int_between [OF assms False]
  have "\<lfloor>fdiv (real_of_int a) (real_of_int b)\<rfloor> = a div b"
    by (intro floor_unique) simp_all
  then show ?thesis by (simp add: floor_divide_of_int_eq)
qed

lemma ceiling_fdiv_int:
  assumes "0 \<le> a" "a < 2 ^ 53" "0 < b"
  shows "\<lceil>fdiv (real_of_int a) (real_of_int b)\<rceil> = \<lceil>real_of_int a / real_of_int b\<rceil>"
proof (cases "a mod b = 0")
  case True
  have "real_of_int a / real_of_int b = real_of_int (a div b)"
    using True assms(3) by (metis real_of_int_div dvd_eq_mod_eq_0)
  then show ?thesis
    using fdiv_int_exact [OF assms True] by simp
next
  case False
  let ?x = "real_of_int a / real_of_int b"
  have rb: "0 < real_of_int b" using assms(3) by simp
  from fdiv_int_between [OF assms False]
  have c1: "\<lceil>fdiv (real_of_int a) (real_of_int b)\<rceil> = a div b + 1"
    by (intro ceiling_unique) simp_all
  have "\<lfloor>?x\<rfloor> = a div b" by (simp add: floor_divide_of_int_eq)
  moreover have "?x \<noteq> real_of_int (a div b)"
  proof
    assume "?x = real_of_int (a div b)"
    then have "real_of_int a = real_of_int (a div b * b)" using rb by (simp add: field_simps)
    then have "a = a div b * b" by (simp only: of_int_eq_iff)
    then have "a mod b = 0" by (metis mod_mult_self2_is_0)
    with False show False by simp
  qed
  ultimately have "\<lceil>?x\<rceil> = a div b + 1"
    by (metis ceiling_altdef of_int_floor_cancel)
  with c1 show ?thesis by simp
qed

subsection \<open>The divisions of the engine\<close>

lemma fdiv_1000_le_0_iff: "fdiv x 1000 \<le> 0 \<longleftrightarrow> x \<le> 0"
proof
  assume "fdiv x 1000 \<le> 0"
  show "x \<le> 0"
  proof (rule ccontr)
    assume "\<not> x \<le> 0"
    then have "0 < x / 1000" by simp
    from binary64_pos [OF this] \<open>fdiv x 1000 \<le> 0\<close> show False by (simp add: fdiv_def)
  qed
next
  assume "x \<le> 0"
  then have "x / 1000 \<le> 0" by simp
  then show "fdiv x 1000 \<le> 0" unfolding fdiv_def by (rule binary64_nonpos)
qed

lemma fdiv_nonneg: "0 \<le> x \<Longrightarrow> 0 \<le> y \<Longrightarrow> 0 \<le> fdiv x y"
  unfolding fdiv_def by (rule binary64_nonneg) simp

lemma gate_passed_iff:
  "valid_input p \<longleftrightarrow>
     \<not> (fdiv (riser p) 1000 \<le> 0 \<or> height p \<le> 0 \<or> fdiv (tread p) 1000 \<le> 0)"
  by (auto simp add: valid_input_def fdiv_1000_le_0_iff)

text \<open>The values of the literal 5.7 and of the default riser and tread in metres.\<close>

lemmas binary64_eval =
  fdiv_def binary64_def floor_log2_def floor_log2_int.simps round_half_even_def Let_def

lemma binary64_5_7: "binary64 5.7 = 6417629469002957 / 2 ^ 50"
  by (simp add: binary64_eval)

lemma fdiv_180_1000: "fdiv 180 1000 = 3242591731706757 / 2 ^ 54"
  by (simp add: binary64_eval)

lemma fdiv_140_1000: "fdiv 140 1000 = 1261007895663739 / 2 ^ 53"
  by (simp add: binary64_eval)

lemma fdiv_120_1000: "fdiv 120 1000 = 1080863910568919 / 2 ^ 53"
  by (simp add: binary64_eval)

text \<open>A height typed as a decimal of at most 5.7 is read as a binary64 value in the first band.\<close>

lemma typed_height_first_band: "d \<le> 5.7 \<Longrightarrow> binary64 d \<le> binary64 5.7"
  by (rule binary64_mono)

subsection \<open>Arithmetic of the primitives and of the flight count\<close>

lemma Math_floor_div: "Math_floor (real_of_int a / real_of_int b) = a div b"
  by (simp add: Math_floor_def floor_divide_of_int_eq)

lemma js_rem_mod: "0 \<le> a \<Longrightarrow> 0 < b \<Longrightarrow> js_rem a b = a mod b"
  by (cases "a = 0") (simp_all add: js_rem_def)

lemma totalRisers_nonneg: "valid_input p \<Longrightarrow> 0 \<le> totalRisers p"
proof -
  assume "valid_input p"
  then have "0 \<le> height p" "0 \<le> fdiv (riser p) 1000"
    by (simp_all add: valid_input_def fdiv_nonneg)
  then have "0 \<le> fdiv (height p) (fdiv (riser p) 1000)"
    by (rule fdiv_nonneg)
  then show ?thesis by (simp add: totalRisers_def Math_round_def)
qed

lemma banded_num_flights_pos: "0 < tr \<Longrightarrow> 1 \<le> banded_num_flights H tr"
  by (simp add: banded_num_flights_def Math_ceil_def Let_def)

lemma num_flights_valid:
  "valid_input p \<Longrightarrow> num_flights (calculateStairMetrics p) =
     clamp_num_flights (banded_num_flights (height p) (totalRisers p)) (totalRisers p)"
  by (simp add: calculateStairMetrics_def fdiv_1000_le_0_iff Let_def valid_input_def totalRisers_def
      split: prod.split)

lemma num_flights_bounds:
  assumes "valid_input p" "0 < totalRisers p"
  shows "1 \<le> num_flights (calculateStairMetrics p)"
    and "num_flights (calculateStairMetrics p) \<le> totalRisers p"
  using assms banded_num_flights_pos [of "totalRisers p" "height p"]
  by (simp_all add: num_flights_valid clamp_num_flights_def)

lemma num_flights_zero:
  "valid_input p \<Longrightarrow> totalRisers p = 0 \<Longrightarrow> num_flights (calculateStairMetrics p) = 0"
  by (simp add: num_flights_valid clamp_num_flights_def banded_num_flights_def)

lemma flights_data_valid:
  "valid_input p \<Longrightarrow> flights_data (calculateStairMetrics p) =
     (let n = num_flights (calculateStairMetrics p) in
      flights_loop 0 n
        (if n > 0 then Math_floor (real_of_int (totalRisers p) / real_of_int n) else 0)
        (if n > 0 then js_rem (totalRisers p) n else 0)
        (fdiv (tread p) 1000) (fdiv (riser p) 1000) [])"
  by (simp add: calculateStairMetrics_def fdiv_1000_le_0_iff Let_def valid_input_def totalRisers_def
      split: prod.split)

lemma invalid_projections:
  assumes "\<not> valid_input p"
  shows "num_flights (calculateStairMetrics p) = 0"
    and "num_landings (calculateStairMetrics p) = 0"
    and "flights_data (calculateStairMetrics p) = []"
    and "formwork_bottom_slab (calculateStairMetrics p) = 0"
  using assms by (auto simp add: calculateStairMetrics_def fdiv_1000_le_0_iff Let_def valid_input_def)

lemma num_landings_valid:
  "valid_input p \<Longrightarrow> num_landings (calculateStairMetrics p) =
     (if num_flights (calculateStairMetrics p) > 0
      then num_flights (calculateStairMetrics p) - 1 else 0)"
  by (simp add: calculateStairMetrics_def fdiv_1000_le_0_iff Let_def valid_input_def totalRisers_def
      split: prod.split)

lemma num_flights_nonneg: "0 \<le> num_flights (calculateStairMetrics p)"
proof (cases "valid_input p")
  case False
  then show ?thesis by (simp add: invalid_projections)
next
  case True
  show ?thesis
  proof (cases "totalRisers p = 0")
    case True
    with \<open>valid_input p\<close> show ?thesis by (simp add: num_flights_zero)
  next
    case False
    with totalRisers_nonneg [OF \<open>valid_input p\<close>] have "0 < totalRisers p" by simp
    from num_flights_bounds(1) [OF \<open>valid_input p\<close> this] show ?thesis by simp
  qed
qed

subsection \<open>The loop as a list comprehension\<close>

text \<open>
  The loop visits the indices \<open>i, \<dots>, n - 1\<close> in order and keeps, for each index whose
  riser count is not zero, the flight with that riser count.
\<close>

lemma flights_loop_filter:
  "flights_loop i n b e t r out =
     out @ map (flight_of t r) (filter (\<lambda>k. k \<noteq> 0) (map (risers_at b e) [i..n - 1]))"
proof (induction i n b e t r out rule: flights_loop.induct)
  case (1 i n b e t r out)
  show ?case
  proof (cases "i < n")
    case False
    then show ?thesis by (simp add: flights_loop.simps)
  next
    case True
    then have up: "[i..n - 1] = i # [i + 1..n - 1]"
      by (simp add: upto_rec1)
    show ?thesis
    proof (cases "risers_at b e i = 0")
      case z: True
      then have "flights_loop i n b e t r out = flights_loop (i + 1) n b e t r out"
        using True by (subst flights_loop.simps) (simp add: risers_at_def Let_def)
      also have "\<dots> = out @ map (flight_of t r) (filter (\<lambda>k. k \<noteq> 0) (map (risers_at b e) [i + 1..n - 1]))"
      proof -
        have "b + (if i < e then 1 else 0) = 0" using z by (simp add: risers_at_def)
        from "1.IH"(1) [OF True refl this] show ?thesis .
      qed
      finally show ?thesis using z up by simp
    next
      case nz: False
      have "flights_loop i n b e t r out =
          flights_loop (i + 1) n b e t r (out @ [flight_of t r (risers_at b e i)])"
        using True nz by (subst flights_loop.simps) (simp add: risers_at_def flight_of_def Let_def)
      also have "\<dots> = (out @ [flight_of t r (risers_at b e i)]) @
           map (flight_of t r) (filter (\<lambda>k. k \<noteq> 0) (map (risers_at b e) [i + 1..n - 1]))"
      proof -
        have nz': "b + (if i < e then 1 else 0) \<noteq> 0" using nz by (simp add: risers_at_def)
        have fl: "flight_of t r (risers_at b e i) =
          \<lparr>risers = b + (if i < e then 1 else 0), treads = b + (if i < e then 1 else 0) - 1,
           run = real_of_int (b + (if i < e then 1 else 0) - 1) * t,
           rise = real_of_int (b + (if i < e then 1 else 0)) * r,
           inclined_length = sqrt ((real_of_int (b + (if i < e then 1 else 0) - 1) * t)\<^sup>2 +
             (real_of_int (b + (if i < e then 1 else 0)) * r)\<^sup>2)\<rparr>"
          by (simp only: risers_at_def flight_of_def)
        from "1.IH"(2) [OF True refl nz' refl refl refl refl] show ?thesis
          by (simp only: fl)
      qed
      finally show ?thesis using nz up by simp
    qed
  qed
qed

lemma risers_at_pos: "1 \<le> b \<Longrightarrow> 1 \<le> risers_at b e i"
  by (simp add: risers_at_def)

lemma flights_loop_all:
  assumes "1 \<le> b"
  shows "flights_loop 0 n b e t r [] = map (\<lambda>i. flight_of t r (risers_at b e i)) [0..n - 1]"
proof -
  have "filter (\<lambda>k. k \<noteq> 0) (map (risers_at b e) [0..n - 1]) = map (risers_at b e) [0..n - 1]"
  proof -
    have "risers_at b e i \<noteq> 0" for i
      using risers_at_pos [OF assms, of e i] by simp
    then show ?thesis by (simp add: filter_id_conv)
  qed
  then show ?thesis by (simp add: flights_loop_filter comp_def)
qed

lemma flights_data_positive:
  assumes "valid_input p" "0 < totalRisers p"
  shows "flights_data (calculateStairMetrics p) =
     map (\<lambda>i. flight_of (fdiv (tread p) 1000) (fdiv (riser p) 1000)
            (risers_at (totalRisers p div num_flights (calculateStairMetrics p))
                       (totalRisers p mod num_flights (calculateStairMetrics p)) i))
         [0..num_flights (calculateStairMetrics p) - 1]"
proof -
  let ?n = "num_flights (calculateStairMetrics p)"
  have n: "1 \<le> ?n" "?n \<le> totalRisers p" using num_flights_bounds [OF assms] by auto
  then have "1 \<le> totalRisers p div ?n"
    using pos_imp_zdiv_pos_iff [of ?n "totalRisers p"] by linarith
  from flights_loop_all [OF this] n assms show ?thesis
    by (simp add: flights_data_valid [OF assms(1)] Let_def Math_floor_div js_rem_mod)
qed

lemma flights_data_zero:
  assumes "valid_input p" "totalRisers p = 0"
  shows "flights_data (calculateStairMetrics p) = []"
  using assms by (simp add: flights_data_valid num_flights_zero flights_loop.simps)


lemma length_flights_data_positive:
  assumes "valid_input p" "0 < totalRisers p"
  shows "int (length (flights_data (calculateStairMetrics p))) =
    num_flights (calculateStairMetrics p)"
  using num_flights_bounds(1) [OF assms]
  by (simp add: flights_data_positive [OF assms])

subsection \<open>The aggregation\<close>

lemma foldl_accumulate_fst:
  "fst (foldl (accumulate_flight sw st t r) (a, b, c, d) fs) =
     a + sum_list (map inclined_length fs)"
  by (induction fs arbitrary: a b c d) simp_all

lemma formwork_valid:
  "valid_input p \<Longrightarrow>
     formwork_bottom_slab (calculateStairMetrics p) =
       fst (foldl (accumulate_flight (fdiv (stairWidth p) 1000) (fdiv (slabThick p) 1000)
              (fdiv (tread p) 1000) (fdiv (riser p) 1000)) (0, 0, 0, 0)
              (flights_data (calculateStairMetrics p))) * (fdiv (stairWidth p) 1000) +
       fst (foldl (accumulate_flight (fdiv (stairWidth p) 1000) (fdiv (slabThick p) 1000)
              (fdiv (tread p) 1000) (fdiv (riser p) 1000)) (0, 0, 0, 0)
              (flights_data (calculateStairMetrics p))) * (fdiv (slabThick p) 1000)"
  by (simp add: calculateStairMetrics_def fdiv_1000_le_0_iff Let_def valid_input_def totalRisers_def
      split: prod.split)

lemma formwork_above_slab_zero: "formwork_above_slab (calculateStairMetrics p) = 0"
  by (simp add: calculateStairMetrics_def fdiv_1000_le_0_iff Let_def split: prod.split)

subsection \<open>Concrete inputs\<close>

text \<open>
  The riser count of line 26 at the inputs used below. A height or riser that is not a
  binary64 value as written (5.7, 0.09) is given as the binary64 value the input form
  reads. At 1.75 m and 22.75 m with a riser of 140 mm the exact quotients are 12.5 and
  162.5; the rounded quotients lie just below, and \<open>Math.round\<close> gives 12 and 162.
\<close>

lemma valid_stair: "0 < h \<Longrightarrow> 0 < r \<Longrightarrow> valid_input (stair h r)"
  by (simp add: valid_input_def stair_def default_params_def)

lemma totalRisers_stair:
  "totalRisers (stair h r) = Math_round (fdiv h (fdiv r 1000))"
  by (simp add: totalRisers_def stair_def)

lemma totalRisers_4_180: "totalRisers (stair 4 180) = 22"
  by (simp add: totalRisers_stair Math_round_def binary64_eval)

lemma totalRisers_1_75_140: "totalRisers (stair 1.75 140) = 12"
  by (simp add: totalRisers_stair Math_round_def binary64_eval)







lemma totalRisers_4_1_180: "totalRisers (stair (binary64 4.1) 180) = 23"
  by (simp add: totalRisers_stair Math_round_def binary64_eval)





lemma typed_heights:
  "0 < binary64 5.7" "0 < binary64 5.701" "0 < binary64 4.1" "0 < binary64 0.18"
  "0 < binary64 0.09" "0 < binary64 0.05"
  by (simp_all add: binary64_pos)


lemma typed_small: "binary64 0.18 \<le> binary64 5.7" "binary64 0.09 \<le> binary64 5.7"
  "binary64 4.1 \<le> binary64 5.7"
  by (rule binary64_mono, simp)+

lemma height_stair: "height (stair h r) = h" and riser_stair: "riser (stair h r) = r"
  and tread_stair: "tread (stair h r) = 280"
  by (simp_all add: stair_def default_params_def)

lemma num_flights_stair:
  "0 < h \<Longrightarrow> 0 < r \<Longrightarrow> num_flights (calculateStairMetrics (stair h r)) =
     clamp_num_flights (banded_num_flights h (totalRisers (stair h r))) (totalRisers (stair h r))"
  by (simp add: num_flights_valid valid_stair height_stair)

subsection \<open>The invalid-input report\<close>

text \<open>
  Claim C1. For every input with \<open>riser \<le> 0\<close> or \<open>height \<le> 0\<close> or \<open>tread \<le> 0\<close>,
  \<open>calculateStairMetrics\<close> returns the zero report: all counts, volumes and formwork
  areas are exactly 0 and \<open>flights_data\<close> is empty, while \<open>R\<close>, \<open>T\<close>, \<open>ST\<close>, \<open>LD\<close>, \<open>LT\<close>
  are the millimetre inputs divided by 1000. The function is total, so the report is
  returned and nothing is raised.
\<close>

theorem zero_report_on_invalid_input:
  assumes "riser params \<le> 0 \<or> height params \<le> 0 \<or> tread params \<le> 0"
  shows "calculateStairMetrics params =
    \<lparr>num_flights = 0, num_landings = 0, total_treads = 0, total_volume = 0,
     total_formwork_area = 0, formwork_bottom_slab = 0, formwork_landing_bottom = 0,
     formwork_risers = 0, formwork_above_slab = 0, volume_waist_slabs = 0,
     volume_landings = 0, volume_steps = 0, flights_data = [],
     R = fdiv (riser params) 1000, T = fdiv (tread params) 1000,
     ST = fdiv (slabThick params) 1000, LD = fdiv (landingDepth params) 1000,
     LT = fdiv (landingThick params) 1000\<rparr>"
  using assms by (auto simp add: calculateStairMetrics_def fdiv_1000_le_0_iff Let_def)

text \<open>The degenerate input of the specification: \<open>riser = 0\<close>, all else as the default.\<close>

theorem zero_report_on_invalid_input_witness:
  "riser (default_params\<lparr>riser := 0\<rparr>) \<le> 0 \<and>
   calculateStairMetrics (default_params\<lparr>riser := 0\<rparr>) =
    \<lparr>num_flights = 0, num_landings = 0, total_treads = 0, total_volume = 0,
     total_formwork_area = 0, formwork_bottom_slab = 0, formwork_landing_bottom = 0,
     formwork_risers = 0, formwork_above_slab = 0, volume_waist_slabs = 0,
     volume_landings = 0, volume_steps = 0, flights_data = [],
     R = 0, T = fdiv 280 1000, ST = fdiv 150 1000, LD = fdiv 1495 1000,
     LT = fdiv 200 1000\<rparr>"
  using zero_report_on_invalid_input [of "default_params\<lparr>riser := 0\<rparr>"]
  by (simp add: default_params_def) (simp add: fdiv_def binary64_zero)

subsection \<open>The number of flights\<close>





text \<open>
  Claim C6. For every input, the reported \<open>num_landings\<close> is \<open>max (num_flights - 1) 0\<close>.
\<close>

theorem landing_count:
  "num_landings (calculateStairMetrics p) = max (num_flights (calculateStairMetrics p) - 1) 0"
proof (cases "valid_input p")
  case False
  then show ?thesis by (simp add: invalid_projections)
next
  case True
  with num_flights_nonneg [of p] show ?thesis
    by (simp add: num_landings_valid)
qed

subsection \<open>The distribution of the risers\<close>

text \<open>
  Claim C3. For every valid input with \<open>totalRisers > 0\<close>, with \<open>n\<close> the reported
  \<open>num_flights\<close>, \<open>base = totalRisers div n\<close> and \<open>extra = totalRisers mod n\<close>:
  \<open>flights_data\<close> has \<open>n\<close> entries, the entry at index \<open>i\<close> has \<open>base + 1\<close> risers if
  \<open>i < extra\<close> and \<open>base\<close> risers otherwise, and every entry has at least one riser.
\<close>

theorem riser_distribution:
  assumes "valid_input p" "0 < totalRisers p"
    and "n = num_flights (calculateStairMetrics p)"
    and "base = totalRisers p div n" "extra = totalRisers p mod n"
  shows "length (flights_data (calculateStairMetrics p)) = nat n \<and>
    (\<forall>i < nat n.
       risers (flights_data (calculateStairMetrics p) ! i) =
         (if int i < extra then base + 1 else base) \<and>
       1 \<le> risers (flights_data (calculateStairMetrics p) ! i))"
proof -
  have n: "1 \<le> n" "n \<le> totalRisers p"
    using num_flights_bounds [OF assms(1,2)] assms(3) by auto
  then have b: "1 \<le> base"
    using pos_imp_zdiv_pos_iff [of n "totalRisers p"] assms(4) by linarith
  have fd: "flights_data (calculateStairMetrics p) =
      map (\<lambda>i. flight_of (fdiv (tread p) 1000) (fdiv (riser p) 1000) (risers_at base extra i))
        [0..n - 1]"
    using flights_data_positive [OF assms(1,2)] assms(3,4,5) by simp
  have len: "length (flights_data (calculateStairMetrics p)) = nat n"
    using n by (simp add: fd)
  have "risers (flights_data (calculateStairMetrics p) ! i) =
         (if int i < extra then base + 1 else base) \<and>
       1 \<le> risers (flights_data (calculateStairMetrics p) ! i)" if "i < nat n" for i
  proof -
    have "[0..n - 1] ! i = int i" using that by simp
    then have "flights_data (calculateStairMetrics p) ! i =
        flight_of (fdiv (tread p) 1000) (fdiv (riser p) 1000) (risers_at base extra (int i))"
      using that by (simp add: fd)
    then show ?thesis using b by (simp add: flight_of_def risers_at_def)
  qed
  with len show ?thesis by blast
qed

text \<open>
  A height of 1.75 m with a riser of 140 mm: 12 risers on two flights, split 6 and 6
  (the exact quotient 12.5 would give 13 risers). The height read from 4.1 with the
  default riser: 23 risers, split 12 and 11.
\<close>

theorem riser_distribution_witness:
  "totalRisers (stair 1.75 140) = 12 \<and>
   length (flights_data (calculateStairMetrics (stair 1.75 140))) = 2 \<and>
   risers (flights_data (calculateStairMetrics (stair 1.75 140)) ! 0) = 6 \<and>
   risers (flights_data (calculateStairMetrics (stair 1.75 140)) ! 1) = 6 \<and>
   totalRisers (stair (binary64 4.1) 180) = 23 \<and>
   length (flights_data (calculateStairMetrics (stair (binary64 4.1) 180))) = 2 \<and>
   risers (flights_data (calculateStairMetrics (stair (binary64 4.1) 180)) ! 0) = 12 \<and>
   risers (flights_data (calculateStairMetrics (stair (binary64 4.1) 180)) ! 1) = 11"
proof -
  let ?p = "stair 1.75 140"
  let ?q = "stair (binary64 4.1) 180"
  have vp: "valid_input ?p" by (simp add: valid_stair)
  have vq: "valid_input ?q" using typed_heights by (simp add: valid_stair)
  have tp: "0 < totalRisers ?p" using totalRisers_1_75_140 by simp
  have tq: "0 < totalRisers ?q" using totalRisers_4_1_180 by simp
  have np: "num_flights (calculateStairMetrics ?p) = 2"
    using totalRisers_1_75_140 binary64_5_7
    by (simp add: num_flights_stair clamp_num_flights_def banded_num_flights_def)
  have nq: "num_flights (calculateStairMetrics ?q) = 2"
    using totalRisers_4_1_180 typed_heights typed_small
    by (simp add: num_flights_stair clamp_num_flights_def banded_num_flights_def)
  from riser_distribution [OF vp tp np [symmetric] refl refl]
  have lenp: "length (flights_data (calculateStairMetrics ?p)) = nat 2"
    and nthp: "\<And>i. i < nat 2 \<Longrightarrow> risers (flights_data (calculateStairMetrics ?p) ! i) =
      (if int i < totalRisers ?p mod 2 then totalRisers ?p div 2 + 1 else totalRisers ?p div 2)"
    by simp_all
  from riser_distribution [OF vq tq nq [symmetric] refl refl]
  have lenq: "length (flights_data (calculateStairMetrics ?q)) = nat 2"
    and nthq: "\<And>i. i < nat 2 \<Longrightarrow> risers (flights_data (calculateStairMetrics ?q) ! i) =
      (if int i < totalRisers ?q mod 2 then totalRisers ?q div 2 + 1 else totalRisers ?q div 2)"
    by simp_all
  have p: "length (flights_data (calculateStairMetrics ?p)) = 2"
      "risers (flights_data (calculateStairMetrics ?p) ! 0) = 6"
      "risers (flights_data (calculateStairMetrics ?p) ! 1) = 6"
    using lenp nthp [of 0] nthp [of 1] totalRisers_1_75_140 by simp_all
  have q: "length (flights_data (calculateStairMetrics ?q)) = 2"
      "risers (flights_data (calculateStairMetrics ?q) ! 0) = 12"
      "risers (flights_data (calculateStairMetrics ?q) ! 1) = 11"
    using lenq nthq [of 0] nthq [of 1] totalRisers_4_1_180 by simp_all
  from p q totalRisers_1_75_140 totalRisers_4_1_180 show ?thesis by blast
qed



text \<open>
  Claim C9. For every input, the reported \<open>num_flights\<close> is the length of
  \<open>flights_data\<close>: no flight is dropped by the loop, since the base riser count is at
  least 1 whenever \<open>num_flights > 0\<close>.
\<close>

theorem num_flights_eq_length:
  "num_flights (calculateStairMetrics p) = int (length (flights_data (calculateStairMetrics p)))
   \<and> (0 < num_flights (calculateStairMetrics p) \<longrightarrow>
        1 \<le> totalRisers p div num_flights (calculateStairMetrics p))"
proof (cases "valid_input p")
  case False
  then show ?thesis by (simp add: invalid_projections)
next
  case True
  show ?thesis
  proof (cases "totalRisers p = 0")
    case z: True
    with True show ?thesis by (simp add: num_flights_zero flights_data_zero)
  next
    case False
    with totalRisers_nonneg [OF True] have tr: "0 < totalRisers p" by simp
    have n: "1 \<le> num_flights (calculateStairMetrics p)"
        "num_flights (calculateStairMetrics p) \<le> totalRisers p"
      using num_flights_bounds [OF True tr] by auto
    then have "1 \<le> totalRisers p div num_flights (calculateStairMetrics p)"
      using pos_imp_zdiv_pos_iff [of "num_flights (calculateStairMetrics p)" "totalRisers p"]
      by linarith
    then show ?thesis using length_flights_data_positive [OF True tr] by simp
  qed
qed

theorem num_flights_eq_length_witness:
  "num_flights (calculateStairMetrics (stair 4 180)) = 2 \<and>
   length (flights_data (calculateStairMetrics (stair 4 180))) = 2 \<and>
   1 \<le> totalRisers (stair 4 180) div 2"
proof -
  have n: "num_flights (calculateStairMetrics (stair 4 180)) = 2"
    using totalRisers_4_180 binary64_5_7
    by (simp add: num_flights_stair clamp_num_flights_def banded_num_flights_def)
  from num_flights_eq_length [of "stair 4 180"] n show ?thesis by simp
qed

subsection \<open>The geometry of a flight\<close>

text \<open>
  Claim C7. For every flight of \<open>flights_data\<close> of any report, with \<open>R = riser / 1000\<close>
  and \<open>T = tread / 1000\<close>: \<open>treads = risers - 1\<close>, \<open>run = treads * T\<close>,
  \<open>rise = risers * R\<close> and \<open>inclined_length = sqrt (run\<^sup>2 + rise\<^sup>2)\<close>.
\<close>

theorem flight_geometry:
  assumes "f \<in> set (flights_data (calculateStairMetrics p))"
  shows "treads f = risers f - 1 \<and>
         run f = real_of_int (treads f) * (fdiv (tread p) 1000) \<and>
         rise f = real_of_int (risers f) * (fdiv (riser p) 1000) \<and>
         inclined_length f = sqrt ((run f)\<^sup>2 + (rise f)\<^sup>2)"
proof -
  have v: "valid_input p"
  proof (rule ccontr)
    assume "\<not> valid_input p"
    then have "flights_data (calculateStairMetrics p) = []"
      by (rule invalid_projections(3))
    with assms show False by simp
  qed
  obtain k where "f = flight_of (fdiv (tread p) 1000) (fdiv (riser p) 1000) k"
    using assms by (auto simp add: flights_data_valid [OF v] Let_def flights_loop_filter)
  then show ?thesis by (simp add: flight_of_def)
qed

text \<open>
  The default input: each of its two flights has 11 risers and 10 treads, a run of 10
  treads of 280 mm and a rise of 11 risers of 180 mm.
\<close>

theorem flight_geometry_witness:
  "flight_of (fdiv 280 1000) (fdiv 180 1000) 11
     \<in> set (flights_data (calculateStairMetrics (stair 4 180))) \<and>
   risers (flight_of (fdiv 280 1000) (fdiv 180 1000) 11) = 11 \<and>
   treads (flight_of (fdiv 280 1000) (fdiv 180 1000) 11) = 10 \<and>
   run (flight_of (fdiv 280 1000) (fdiv 180 1000) 11) = 10 * fdiv 280 1000 \<and>
   rise (flight_of (fdiv 280 1000) (fdiv 180 1000) 11) = 11 * fdiv 180 1000 \<and>
   inclined_length (flight_of (fdiv 280 1000) (fdiv 180 1000) 11) =
     sqrt ((10 * fdiv 280 1000)\<^sup>2 + (11 * fdiv 180 1000)\<^sup>2)"
proof -
  let ?f = "flight_of (fdiv 280 1000) (fdiv 180 1000) 11"
  have v: "valid_input (stair 4 180)" by (simp add: valid_stair)
  have t: "0 < totalRisers (stair 4 180)" by (simp add: totalRisers_4_180)
  have n: "num_flights (calculateStairMetrics (stair 4 180)) = 2"
    using totalRisers_4_180 binary64_5_7
    by (simp add: num_flights_stair clamp_num_flights_def banded_num_flights_def)
  have "flights_data (calculateStairMetrics (stair 4 180)) = [?f, ?f]"
    using flights_data_positive [OF v t] n
    by (simp add: totalRisers_4_180 upto_rec1 risers_at_def tread_stair riser_stair)
  then have m: "?f \<in> set (flights_data (calculateStairMetrics (stair 4 180)))"
    by simp
  have r: "risers ?f = 11" by (simp add: flight_of_def)
  note c = flight_geometry [OF m]
  have tr: "treads ?f = 10"
    using c r by simp
  have run: "run ?f = 10 * fdiv 280 1000"
    using c tr by (simp add: tread_stair)
  have rise: "rise ?f = 11 * fdiv 180 1000"
    using c r by (simp add: riser_stair)
  have "inclined_length ?f = sqrt ((run ?f)\<^sup>2 + (rise ?f)\<^sup>2)"
    using c by blast
  then have "inclined_length ?f = sqrt ((10 * fdiv 280 1000)\<^sup>2 + (11 * fdiv 180 1000)\<^sup>2)"
    by (simp only: run rise)
  with m r tr run rise show ?thesis by blast
qed

subsection \<open>Formwork\<close>

text \<open>
  Claim C8. For every valid input, with \<open>totalInclinedLength\<close> the sum of
  \<open>inclined_length\<close> over \<open>flights_data\<close>, \<open>SW = stairWidth / 1000\<close> and
  \<open>ST = slabThick / 1000\<close>: \<open>formwork_bottom_slab\<close> is
  \<open>totalInclinedLength * SW + totalInclinedLength * ST\<close>, and \<open>formwork_above_slab\<close> is 0.
\<close>

theorem formwork_bottom_slab_formula:
  assumes "valid_input p"
  shows "formwork_bottom_slab (calculateStairMetrics p) =
      sum_list (map inclined_length (flights_data (calculateStairMetrics p))) *
        (fdiv (stairWidth p) 1000) +
      sum_list (map inclined_length (flights_data (calculateStairMetrics p))) *
        (fdiv (slabThick p) 1000)
    \<and> formwork_above_slab (calculateStairMetrics p) = 0"
  using assms by (simp add: formwork_valid foldl_accumulate_fst formwork_above_slab_zero)

theorem formwork_bottom_slab_formula_witness:
  "valid_input default_params \<and>
   formwork_bottom_slab (calculateStairMetrics default_params) =
     sum_list (map inclined_length (flights_data (calculateStairMetrics default_params))) *
       fdiv 1950 1000 +
     sum_list (map inclined_length (flights_data (calculateStairMetrics default_params))) *
       fdiv 150 1000 \<and>
   formwork_above_slab (calculateStairMetrics default_params) = 0"
  using formwork_bottom_slab_formula [of default_params]
  by (simp add: valid_input_def default_params_def)

subsection \<open>A valid input that rounds to no riser\<close>



end
